theory Spec2Isabelle
  imports
    Complex_Main
    "HOL-Library.Char_ord"
    "HOL-Library.List_Lexorder"
    "HOL-Library.Product_Lexorder"
begin

section \<open>FSCommander: a shallow embedding of \<^verbatim>\<open>search.py\<close>, \<^verbatim>\<open>dir_ops.py\<close> and \<^verbatim>\<open>file_ops.py\<close>\<close>

text \<open>
  Scope of the model.
  \<^item> Python \<^verbatim>\<open>str\<close> is \<^typ>\<open>string\<close>; the characters are ASCII, so \<^verbatim>\<open>upper\<close>,
    \<^verbatim>\<open>lower\<close> and \<^verbatim>\<open>strip\<close> are the ASCII ones.
  \<^item> Python \<^verbatim>\<open>int\<close> is \<^typ>\<open>int\<close>.
  \<^item> \<^verbatim>\<open>float(s)\<close> is the exact decimal value of the literal \<^verbatim>\<open>s\<close>, or an infinity when the
    value is beyond the binary64 range, or NaN; the rounding of a literal to 53 bits is not
    modelled (it is the identity on the integers below \<open>2^53\<close>, and a product with a power of
    \<open>1024\<close> adds no rounding of its own).
  \<^item> An exception is a value of type \<open>error\<close>, a function that may raise returns
    \<open>error + 'a\<close>.
  \<^item> The file system holds regular files and directories, addressed by resolved absolute
    paths (the list of the components below the root). Symbolic links, permissions and I/O
    failures are outside the model: an operation fails only where the shape of the tree
    makes it fail (a directory cannot be created where a regular file is in the way, a
    directory with children cannot be removed by \<^verbatim>\<open>rmdir\<close>).
  \<^item> The regular expression engine and the glob matchers of the Python library are
    parameters of \<open>search_text\<close>; the formatting of sizes and times is a parameter of
    \<open>list_directory\<close>.
\<close>

datatype error =
  ValueError | OverflowError | NameError | FileExistsError | NotADirectoryError | OSError | ReError

subsection \<open>Strings\<close>

definition is_space :: "char \<Rightarrow> bool" where
  "is_space c = (c \<in> set [CHR '' '', CHR 0x09, CHR 0x0A, CHR 0x0B, CHR 0x0C, CHR 0x0D,
                           CHR 0x1C, CHR 0x1D, CHR 0x1E, CHR 0x1F])"

definition is_digit :: "char \<Rightarrow> bool" where
  "is_digit c = (c \<in> set ''0123456789'')"

definition digit_val :: "char \<Rightarrow> nat" where
  "digit_val c = of_char c - 48"

definition ascii_lowercase :: string where
  "ascii_lowercase = ''abcdefghijklmnopqrstuvwxyz''"

definition ascii_uppercase :: string where
  "ascii_uppercase = ''ABCDEFGHIJKLMNOPQRSTUVWXYZ''"

definition to_upper :: "char \<Rightarrow> char" where
  "to_upper c = (case map_of (zip ascii_lowercase ascii_uppercase) c of None \<Rightarrow> c | Some u \<Rightarrow> u)"

definition to_lower :: "char \<Rightarrow> char" where
  "to_lower c = (case map_of (zip ascii_uppercase ascii_lowercase) c of None \<Rightarrow> c | Some l \<Rightarrow> l)"

definition upper :: "string \<Rightarrow> string" where
  "upper s = map to_upper s"

definition lower :: "string \<Rightarrow> string" where
  "lower s = map to_lower s"

definition strip :: "string \<Rightarrow> string" where
  "strip s = rev (dropWhile is_space (rev (dropWhile is_space s)))"

definition startswith :: "string \<Rightarrow> string \<Rightarrow> bool" where
  "startswith s p = (take (length p) s = p)"

definition endswith :: "string \<Rightarrow> string \<Rightarrow> bool" where
  "endswith s p = (length p \<le> length s \<and> drop (length s - length p) s = p)"

subsection \<open>\<^verbatim>\<open>int(str)\<close> and \<^verbatim>\<open>float(str)\<close>\<close>

text \<open>\<^verbatim>\<open>digitpart ::= digit (["_"] digit)*\<close>, the digit groups of Python's numeric literals.\<close>

fun digitpart :: "string \<Rightarrow> bool" where
  "digitpart [] = False"
| "digitpart [c] = is_digit c"
| "digitpart (c # d # cs) =
     (is_digit c \<and> (if d = CHR ''_'' then digitpart cs else digitpart (d # cs)))"

definition digits_val :: "string \<Rightarrow> nat" where
  "digits_val s = foldl (\<lambda>a c. 10 * a + digit_val c) 0 (filter is_digit s)"

definition split_sign :: "string \<Rightarrow> int \<times> string" where
  "split_sign s =
     (case s of
        [] \<Rightarrow> (1, [])
      | c # cs \<Rightarrow> if c = CHR ''-'' then (- 1, cs) else if c = CHR ''+'' then (1, cs) else (1, s))"

text \<open>\<^verbatim>\<open>int(s)\<close> in base 10: \<open>None\<close> is the \<^verbatim>\<open>ValueError\<close>.\<close>

definition py_int :: "string \<Rightarrow> int option" where
  "py_int s =
     (let (sg, b) = split_sign (strip s)
      in if digitpart b then Some (sg * int (digits_val b)) else None)"

text \<open>
  A float is \<open>Finite m k\<close> with the value \<open>m * 10 ^ k\<close>, an infinity (\<open>True\<close>: negative), or NaN.
\<close>

datatype pyfloat = Finite int int | Infinite bool | NaN

text \<open>\<^verbatim>\<open>number ::= [digitpart] "." digitpart | digitpart ["."]\<close>\<close>

definition mantissa :: "string \<Rightarrow> (nat \<times> int) option" where
  "mantissa m =
     (let ip = takeWhile (\<lambda>c. c \<noteq> CHR ''.'') m;
          r = dropWhile (\<lambda>c. c \<noteq> CHR ''.'') m
      in case r of
           [] \<Rightarrow> if digitpart ip then Some (digits_val ip, 0) else None
         | _ # fp \<Rightarrow>
             if (ip = [] \<or> digitpart ip) \<and> (fp = [] \<or> digitpart fp) \<and> \<not> (ip = [] \<and> fp = [])
             then Some (digits_val (ip @ fp), - int (length (filter is_digit fp)))
             else None)"

text \<open>\<^verbatim>\<open>floatnumber ::= number [("e" | "E") ["+" | "-"] digitpart]\<close>\<close>

definition is_exp_mark :: "char \<Rightarrow> bool" where
  "is_exp_mark c = (c = CHR ''e'' \<or> c = CHR ''E'')"

definition floatnumber :: "string \<Rightarrow> (nat \<times> int) option" where
  "floatnumber b =
     (let m = takeWhile (\<lambda>c. \<not> is_exp_mark c) b;
          r = dropWhile (\<lambda>c. \<not> is_exp_mark c) b
      in case r of
           [] \<Rightarrow> mantissa m
         | _ # x \<Rightarrow>
             (let (sg, d) = split_sign x
              in if digitpart d
                 then map_option (\<lambda>(n, k). (n, k + sg * int (digits_val d))) (mantissa m)
                 else None))"

text \<open>
  The largest binary64 is \<open>2^1024 - 2^971\<close>; a value of at least \<open>2^1024 - 2^970\<close> rounds to
  an infinity.
\<close>

definition float_limit :: int where
  "float_limit = 2 ^ 1024 - 2 ^ 970"

definition in_float_range :: "int \<Rightarrow> int \<Rightarrow> bool" where
  "in_float_range m k =
     (if 0 \<le> k then \<bar>m\<bar> * 10 ^ nat k < float_limit else \<bar>m\<bar> < float_limit * 10 ^ nat (- k))"

definition mk_float :: "int \<Rightarrow> int \<Rightarrow> pyfloat" where
  "mk_float m k = (if in_float_range m k then Finite m k else Infinite (m < 0))"

text \<open>\<^verbatim>\<open>float(s)\<close>: \<open>None\<close> is the \<^verbatim>\<open>ValueError\<close>.\<close>

definition py_float :: "string \<Rightarrow> pyfloat option" where
  "py_float s =
     (let (sg, b) = split_sign (strip s)
      in if upper b = ''INF'' \<or> upper b = ''INFINITY'' then Some (Infinite (sg < 0))
         else if upper b = ''NAN'' then Some NaN
         else map_option (\<lambda>(n, k). mk_float (sg * int n) k) (floatnumber b))"

text \<open>\<^verbatim>\<open>value * multiplier\<close> for an integer multiplier.\<close>

fun fmul :: "pyfloat \<Rightarrow> int \<Rightarrow> pyfloat" where
  "fmul (Finite m k) c = mk_float (m * c) k"
| "fmul (Infinite b) c = Infinite b"
| "fmul NaN c = NaN"

text \<open>The integer part of \<open>m * 10 ^ k\<close>, rounded towards zero.\<close>

definition trunc_dec :: "int \<Rightarrow> int \<Rightarrow> int" where
  "trunc_dec m k = (if 0 \<le> k then m * 10 ^ nat k else sgn m * (\<bar>m\<bar> div 10 ^ nat (- k)))"

text \<open>\<^verbatim>\<open>int(x)\<close> for a float \<^verbatim>\<open>x\<close>.\<close>

fun int_of_float :: "pyfloat \<Rightarrow> error + int" where
  "int_of_float (Finite m k) = Inr (trunc_dec m k)"
| "int_of_float (Infinite b) = Inl OverflowError"
| "int_of_float NaN = Inl ValueError"

subsection \<open>\<^verbatim>\<open>search.py\<close>: the size filter\<close>

definition units :: "(string \<times> int) list" where
  "units = [(''B'', 1), (''KB'', 1024), (''MB'', 1024 ^ 2), (''GB'', 1024 ^ 3), (''TB'', 1024 ^ 4)]"

text \<open>\<^verbatim>\<open>sorted(units.items(), key=lambda x: -len(x[0]))\<close>; \<^const>\<open>sort_key\<close> is stable, as
  \<^verbatim>\<open>sorted\<close> is.\<close>

definition sorted_units :: "(string \<times> int) list" where
  "sorted_units = sort_key (\<lambda>x. - int (length (fst x))) units"

text \<open>
  The loop over the units. \<open>None\<close>: the loop ended, by exhaustion or by the \<^verbatim>\<open>break\<close> of the
  \<^verbatim>\<open>except ValueError\<close>; \<open>Some r\<close>: the function returned or raised inside the loop.
\<close>

fun unit_loop :: "string \<Rightarrow> string \<Rightarrow> (string \<times> int) list \<Rightarrow> (error + string \<times> int) option" where
  "unit_loop op val_str [] = None"
| "unit_loop op val_str ((unit, multiplier) # us) =
     (if endswith val_str unit
      then (case py_float (take (length val_str - length unit) val_str) of
              None \<Rightarrow> None
            | Some v \<Rightarrow>
                (case int_of_float (fmul v multiplier) of
                   Inr n \<Rightarrow> Some (Inr (op, n))
                 | Inl e \<Rightarrow> if e = ValueError then None else Some (Inl e)))
      else unit_loop op val_str us)"

definition split_operator :: "string \<Rightarrow> string \<times> string" where
  "split_operator size_str =
     (if startswith size_str ''>='' then (''>='', drop 2 size_str)
      else if startswith size_str ''<='' then (''<='', drop 2 size_str)
      else if startswith size_str ''>'' then (''>'', drop 1 size_str)
      else if startswith size_str ''<'' then (''<'', drop 1 size_str)
      else (''>'', size_str))"

definition parse_size_filter :: "string \<Rightarrow> error + string \<times> int" where
  "parse_size_filter s =
     (let size_str = upper (strip s);
          (op, val_str) = split_operator size_str
      in case unit_loop op val_str sorted_units of
           Some r \<Rightarrow> r
         | None \<Rightarrow> (case py_int val_str of Some n \<Rightarrow> Inr (op, n) | None \<Rightarrow> Inr (''>'', 0)))"

definition matches_size :: "int \<Rightarrow> string \<times> int \<Rightarrow> bool" where
  "matches_size file_size filter_tuple =
     (let (op, threshold) = filter_tuple
      in if op = ''>'' then file_size > threshold
         else if op = ''>='' then file_size \<ge> threshold
         else if op = ''<'' then file_size < threshold
         else if op = ''<='' then file_size \<le> threshold
         else False)"

subsection \<open>Notions used to state the properties of the size filter\<close>

text \<open>The text after the operator, as \<^const>\<open>parse_size_filter\<close> sees it.\<close>

definition number_text :: "string \<Rightarrow> string" where
  "number_text s = snd (split_operator (upper (strip s)))"


text \<open>The number is written with a leading minus sign.\<close>

definition negative_sign :: "string \<Rightarrow> bool" where
  "negative_sign s =
     (case dropWhile is_space (number_text s) of [] \<Rightarrow> False | c # _ \<Rightarrow> c = CHR ''-'')"





subsection \<open>The file system\<close>

type_synonym path = "string list"

datatype entry = File string | Dir

text \<open>
  A file system lists its entries in the order in which the operating system enumerates
  them. The root \<open>[]\<close> is a directory and has no entry of its own.
\<close>

type_synonym filesystem = "(path \<times> entry) list"

definition lookup :: "filesystem \<Rightarrow> path \<Rightarrow> entry option" where
  "lookup fs p = (if p = [] then Some Dir else map_of fs p)"

definition path_exists :: "filesystem \<Rightarrow> path \<Rightarrow> bool" where
  "path_exists fs p = (lookup fs p \<noteq> None)"

definition is_dir :: "filesystem \<Rightarrow> path \<Rightarrow> bool" where
  "is_dir fs p = (lookup fs p = Some Dir)"

definition is_file :: "filesystem \<Rightarrow> path \<Rightarrow> bool" where
  "is_file fs p = (case lookup fs p of Some (File c) \<Rightarrow> True | _ \<Rightarrow> False)"

text \<open>\<^verbatim>\<open>p.parent\<close> and \<^verbatim>\<open>p.relative_to(d)\<close> for a path \<^verbatim>\<open>p\<close> below \<^verbatim>\<open>d\<close>.\<close>

definition parent :: "path \<Rightarrow> path" where
  "parent p = butlast p"

definition relative_to :: "path \<Rightarrow> path \<Rightarrow> path" where
  "relative_to p d = drop (length d) p"

definition below :: "path \<Rightarrow> path \<Rightarrow> bool" where
  "below d p = (length d < length p \<and> take (length d) p = d)"

text \<open>\<^verbatim>\<open>d.iterdir()\<close>: the children of \<^verbatim>\<open>d\<close>; \<^verbatim>\<open>d.rglob("*")\<close>: everything below \<^verbatim>\<open>d\<close>.\<close>

definition iterdir :: "filesystem \<Rightarrow> path \<Rightarrow> path list" where
  "iterdir fs d = filter (\<lambda>p. p \<noteq> [] \<and> parent p = d) (map fst fs)"

definition rglob_all :: "filesystem \<Rightarrow> path \<Rightarrow> path list" where
  "rglob_all fs d = filter (below d) (map fst fs)"

text \<open>
  \<^verbatim>\<open>p.mkdir(parents=True, exist_ok=True)\<close>, as \<^verbatim>\<open>pathlib\<close> does it: \<^verbatim>\<open>os.mkdir(p)\<close>; on
  \<^verbatim>\<open>FileNotFoundError\<close> (the parent is missing) the parent is made first and \<^verbatim>\<open>os.mkdir(p)\<close>
  is tried again; any other \<^verbatim>\<open>OSError\<close> is raised again unless \<^verbatim>\<open>p\<close> is a directory.
\<close>

function mkdir_parents :: "filesystem \<Rightarrow> path \<Rightarrow> error + filesystem" where
  "mkdir_parents fs p =
     (if p = [] then Inr fs
      else case lookup fs p of
             Some Dir \<Rightarrow> Inr fs
           | Some (File c) \<Rightarrow> Inl FileExistsError
           | None \<Rightarrow>
               (case lookup fs (parent p) of
                  Some Dir \<Rightarrow> Inr (fs @ [(p, Dir)])
                | Some (File c) \<Rightarrow> Inl NotADirectoryError
                | None \<Rightarrow>
                    (case mkdir_parents fs (parent p) of
                       Inl e \<Rightarrow> Inl e
                     | Inr fs' \<Rightarrow> Inr (fs' @ [(p, Dir)]))))"
  by pat_completeness auto
termination
  by (relation "measure (\<lambda>(fs, p). length p)") (auto simp: parent_def)

declare mkdir_parents.simps [simp del]

text \<open>
  \<^verbatim>\<open>p.unlink()\<close> of a regular file, \<^verbatim>\<open>p.rmdir()\<close> and \<^verbatim>\<open>shutil.rmtree(p)\<close> of a
  directory, each with the file system it leaves. \<^verbatim>\<open>rmdir\<close> needs an empty directory;
  the root cannot be removed, \<^verbatim>\<open>rmtree\<close> empties it before it fails.
\<close>

definition unlink :: "filesystem \<Rightarrow> path \<Rightarrow> filesystem" where
  "unlink fs p = filter (\<lambda>(q, e). q \<noteq> p) fs"



subsection \<open>\<^verbatim>\<open>file_ops.py\<close>: remove\<close>


subsection \<open>\<^verbatim>\<open>dir_ops.py\<close>: list_directory\<close>

text \<open>
  The dictionary of one entry: the name, and with \<^verbatim>\<open>detailed\<close> the size, the time of
  modification and the type.
\<close>

record info =
  info_name :: string
  info_size :: "string option"
  info_modified :: "string option"
  info_type :: "string option"

text \<open>The key of \<^verbatim>\<open>sorted(p.iterdir(), key=lambda x: (x.is_file(), x.name.lower()))\<close>.\<close>

definition entry_key :: "filesystem \<Rightarrow> path \<Rightarrow> bool \<times> string" where
  "entry_key fs x = (is_file fs x, lower (last x))"

text \<open>
  \<open>stat_text x\<close> is \<^verbatim>\<open>entry.stat()\<close> with the size and the time already formatted, \<open>None\<close> when
  it raises \<^verbatim>\<open>OSError\<close>.
\<close>

definition entry_info ::
    "(path \<Rightarrow> (string \<times> string) option) \<Rightarrow> filesystem \<Rightarrow> bool \<Rightarrow> path \<Rightarrow> info" where
  "entry_info stat_text fs detailed x =
     (let i = \<lparr>info_name = last x, info_size = None, info_modified = None, info_type = None\<rparr>
      in if detailed
         then (case stat_text x of
                 Some (sz, mt) \<Rightarrow>
                   i\<lparr>info_size := Some sz, info_modified := Some mt,
                     info_type := Some (if is_dir fs x then ''dir'' else ''file'')\<rparr>
               | None \<Rightarrow> i\<lparr>info_size := Some ''-'', info_modified := Some ''-''\<rparr>)
         else i)"

definition list_directory ::
    "(path \<Rightarrow> (string \<times> string) option) \<Rightarrow> filesystem \<Rightarrow> path \<Rightarrow> bool \<Rightarrow> bool \<Rightarrow> info list" where
  "list_directory stat_text fs p show_hidden detailed =
     (if \<not> path_exists fs p \<or> \<not> is_dir fs p then []
      else let entries = sort_key (entry_key fs) (iterdir fs p)
           in map (entry_info stat_text fs detailed)
                (filter (\<lambda>x. \<not> (\<not> show_hidden \<and> startswith (last x) ''.'')) entries))"

subsection \<open>\<^verbatim>\<open>dir_ops.py\<close>: sync\<close>

record sync_result =
  copied :: nat
  skipped :: nat
  deleted :: nat

text \<open>
  \<^verbatim>\<open>shutil.copy2(src_file, dst_file)\<close> in \<^verbatim>\<open>dir_ops.py\<close>, which never imports \<^verbatim>\<open>shutil\<close>:
  looking the name up raises \<^verbatim>\<open>NameError\<close> before anything is copied.
\<close>

definition shutil_copy2 :: "filesystem \<Rightarrow> path \<Rightarrow> path \<Rightarrow> error + filesystem" where
  "shutil_copy2 fs src_file dst_file = Inl NameError"

text \<open>
  The two loops of \<^verbatim>\<open>sync\<close>, over the paths that \<^verbatim>\<open>rglob("*")\<close> yields. The generator is read at
  the start of the loop: what appears below \<^verbatim>\<open>src\<close> or \<^verbatim>\<open>dst\<close> while a loop runs is a directory
  made by \<^verbatim>\<open>mkdir\<close>, which the test \<^verbatim>\<open>is_file\<close> skips.
\<close>

fun copy_loop ::
    "path \<Rightarrow> path \<Rightarrow> bool \<Rightarrow> path list \<Rightarrow> sync_result \<Rightarrow> filesystem
     \<Rightarrow> (error + sync_result) \<times> filesystem" where
  "copy_loop src dst dry_run [] result fs = (Inr result, fs)"
| "copy_loop src dst dry_run (src_file # rest) result fs =
     (if is_file fs src_file
      then (let rel_path = relative_to src_file src;
                dst_file = dst @ rel_path
            in case mkdir_parents fs (parent dst_file) of
                 Inl e \<Rightarrow> (Inl e, fs)
               | Inr fs1 \<Rightarrow>
                   if path_exists fs1 dst_file
                   then copy_loop src dst dry_run rest (result\<lparr>skipped := skipped result + 1\<rparr>) fs1
                   else (case (if \<not> dry_run then shutil_copy2 fs1 src_file dst_file else Inr fs1) of
                           Inl e \<Rightarrow> (Inl e, fs1)
                         | Inr fs2 \<Rightarrow>
                             copy_loop src dst dry_run rest
                               (result\<lparr>copied := copied result + 1\<rparr>) fs2))
      else copy_loop src dst dry_run rest result fs)"

fun delete_loop ::
    "path \<Rightarrow> path \<Rightarrow> bool \<Rightarrow> path list \<Rightarrow> sync_result \<Rightarrow> filesystem
     \<Rightarrow> sync_result \<times> filesystem" where
  "delete_loop src dst dry_run [] result fs = (result, fs)"
| "delete_loop src dst dry_run (dst_file # rest) result fs =
     (if is_file fs dst_file
      then (let rel_path = relative_to dst_file dst;
                src_file = src @ rel_path
            in if \<not> path_exists fs src_file
               then delete_loop src dst dry_run rest (result\<lparr>deleted := deleted result + 1\<rparr>)
                      (if \<not> dry_run then unlink fs dst_file else fs)
               else delete_loop src dst dry_run rest result fs)
      else delete_loop src dst dry_run rest result fs)"

definition sync ::
    "filesystem \<Rightarrow> path \<Rightarrow> path \<Rightarrow> bool \<Rightarrow> bool \<Rightarrow> (error + sync_result) \<times> filesystem" where
  "sync fs src dst delete dry_run =
     (let result = \<lparr>copied = 0, skipped = 0, deleted = 0\<rparr>
      in if \<not> path_exists fs src \<or> \<not> is_dir fs src then (Inr result, fs)
         else case mkdir_parents fs dst of
                Inl e \<Rightarrow> (Inl e, fs)
              | Inr fs1 \<Rightarrow>
                  (case copy_loop src dst dry_run (rglob_all fs1 src) result fs1 of
                     (Inl e, fs2) \<Rightarrow> (Inl e, fs2)
                   | (Inr r, fs2) \<Rightarrow>
                       if delete
                       then (case delete_loop src dst dry_run (rglob_all fs2 dst) r fs2 of
                               (r', fs3) \<Rightarrow> (Inr r', fs3))
                       else (Inr r, fs2)))"

text \<open>
  A well-formed file system: no path twice, and every entry lies in a directory.
\<close>

definition wf_fs :: "filesystem \<Rightarrow> bool" where
  "wf_fs fs = (distinct (map fst fs) \<and> (\<forall>p \<in> set (map fst fs). p \<noteq> [] \<and> is_dir fs (parent p)))"

text \<open>
  A file system extends another when it only adds directories at paths that were free.
\<close>

definition extends :: "filesystem \<Rightarrow> filesystem \<Rightarrow> bool" where
  "extends fs fs' = (\<exists>ds. fs' = fs @ map (\<lambda>q. (q, Dir)) ds \<and> (\<forall>q \<in> set ds. lookup fs q = None))"

subsection \<open>File systems used as instances\<close>

text \<open>
  A source tree \<^verbatim>\<open>/s\<close> with \<^verbatim>\<open>a/b.txt\<close> and \<^verbatim>\<open>c\<close>, and a destination \<^verbatim>\<open>/d\<close> that has \<^verbatim>\<open>c\<close> and a
  file \<^verbatim>\<open>z\<close> of its own.
\<close>

definition example_fs :: filesystem where
  "example_fs =
     [([''s''], Dir), ([''s'', ''a''], Dir), ([''s'', ''a'', ''b.txt''], File ''x''),
      ([''s'', ''c''], File ''y''), ([''d''], Dir), ([''d'', ''c''], File ''old''),
      ([''d'', ''z''], File ''zz'')]"


text \<open>A destination where the regular file \<^verbatim>\<open>/d/a\<close> is in the way of the directory \<^verbatim>\<open>/d/a\<close>.\<close>

definition blocked_fs :: filesystem where
  "blocked_fs =
     [([''s''], Dir), ([''s'', ''a''], Dir), ([''s'', ''a'', ''b.txt''], File ''x''),
      ([''d''], Dir), ([''d'', ''a''], File ''y'')]"

text \<open>A directory with hidden entries, and names in both cases.\<close>

definition listing_fs :: filesystem where
  "listing_fs =
     [([''s''], Dir), ([''s'', ''c''], File ''y''), ([''s'', ''a''], Dir),
      ([''s'', ''a'', ''b.txt''], File ''x''), ([''s'', ''.h''], File ''''),
      ([''s'', ''B''], Dir), ([''s'', ''Zed''], File ''''), ([''s'', ''.git''], Dir)]"

subsection \<open>\<^verbatim>\<open>search.py\<close>: search_text\<close>















section \<open>The size filter: proofs\<close>

lemma sorted_units_eq:
  "sorted_units = [(''KB'', 1024), (''MB'', 1024 ^ 2), (''GB'', 1024 ^ 3), (''TB'', 1024 ^ 4), (''B'', 1)]"
  by (simp add: sorted_units_def units_def)






























lemma dropWhile_take_Cons:
  "dropWhile P (take j v) = c # r \<Longrightarrow> \<exists>r'. dropWhile P v = c # r'"
proof (induction v arbitrary: j)
  case Nil
  then show ?case by simp
next
  case (Cons a v)
  then show ?case by (cases j) (auto split: if_splits)
qed

lemma strip_Cons: 
  assumes "strip w = c # r"
  shows "\<exists>r'. dropWhile is_space w = c # r'"
proof -
  define t where "t = dropWhile is_space w"
  have "rev (dropWhile is_space (rev t)) @ rev (takeWhile is_space (rev t)) = t"
    by (simp only: rev_append [symmetric] takeWhile_dropWhile_id rev_rev_ident)
  then have "t = strip w @ rev (takeWhile is_space (rev t))"
    unfolding strip_def t_def by simp
  then have "t = c # (r @ rev (takeWhile is_space (rev t)))" using assms by simp
  then show ?thesis unfolding t_def by blast
qed

lemma split_sign_nonneg:
  assumes "split_sign (strip w) = (sg, b)"
    and "\<forall>r. dropWhile is_space w \<noteq> CHR ''-'' # r"
  shows "sg = 1"
proof (cases "strip w")
  case Nil
  then show ?thesis using assms(1) by (simp add: split_sign_def)
next
  case (Cons c r)
  from strip_Cons [OF this] assms(2) have "c \<noteq> CHR ''-''" by auto
  then show ?thesis using assms(1) Cons by (auto simp: split_sign_def split: if_splits)
qed

lemma py_float_nonneg:
  assumes "py_float w = Some (Finite a k)"
    and "\<forall>r. dropWhile is_space w \<noteq> CHR ''-'' # r"
  shows "0 \<le> a"
proof -
  obtain sg b where sb: "split_sign (strip w) = (sg, b)" by (cases "split_sign (strip w)")
  have sg: "sg = 1" using sb assms(2) by (rule split_sign_nonneg)
  show ?thesis using assms(1) sb sg
    by (auto simp: py_float_def mk_float_def split: if_splits)
qed

lemma py_int_nonneg:
  assumes "py_int w = Some a"
    and "\<forall>r. dropWhile is_space w \<noteq> CHR ''-'' # r"
  shows "0 \<le> a"
proof -
  obtain sg b where sb: "split_sign (strip w) = (sg, b)" by (cases "split_sign (strip w)")
  have sg: "sg = 1" using sb assms(2) by (rule split_sign_nonneg)
  show ?thesis using assms(1) sb sg
    by (auto simp: py_int_def split: if_splits)
qed

lemma trunc_dec_nonneg: "0 \<le> a \<Longrightarrow> 0 \<le> trunc_dec a k"
  by (simp add: trunc_dec_def sgn_if pos_imp_zdiv_nonneg_iff)

lemma int_of_float_fmul_nonneg:
  assumes "int_of_float (fmul x c) = Inr t" "\<forall>a k. x = Finite a k \<longrightarrow> 0 \<le> a" "0 \<le> c"
  shows "0 \<le> t"
proof (cases x)
  case (Finite a k)
  then have "0 \<le> a * c" using assms(2,3) by simp
  then show ?thesis using assms(1) Finite
    by (auto simp: mk_float_def trunc_dec_nonneg split: if_splits)
next
  case (Infinite b)
  then show ?thesis using assms(1) by simp
next
  case NaN
  then show ?thesis using assms(1) by simp
qed

lemma unit_loop_nonneg:
  assumes "unit_loop op v us = Some (Inr (op', t))"
    and "\<forall>(u, c) \<in> set us. 0 \<le> c"
    and "\<forall>r. dropWhile is_space v \<noteq> CHR ''-'' # r"
  shows "0 \<le> t"
  using assms
proof (induction us)
  case Nil
  then show ?case by simp
next
  case (Cons uc us)
  obtain u c where uc: "uc = (u, c)" by (cases uc)
  show ?case
  proof (cases "endswith v u")
    case False
    then show ?thesis using Cons uc by simp
  next
    case True
    let ?w = "take (length v - length u) v"
    have w: "\<forall>r. dropWhile is_space ?w \<noteq> CHR ''-'' # r"
      using Cons.prems(3) dropWhile_take_Cons [of is_space "length v - length u" v] by blast
    from Cons.prems(1) True uc obtain x where x: "py_float ?w = Some x"
      and i: "int_of_float (fmul x c) = Inr t"
      by (auto split: option.splits sum.splits if_splits)
    have "\<forall>a k. x = Finite a k \<longrightarrow> 0 \<le> a"
      using py_float_nonneg [of ?w] x w by auto
    moreover have "0 \<le> c" using Cons.prems(2) uc by simp
    ultimately show ?thesis using i int_of_float_fmul_nonneg by blast
  qed
qed

lemma sorted_units_nonneg: "\<forall>(u, c) \<in> set sorted_units. 0 \<le> c"
  by (simp add: sorted_units_eq)

text \<open>
  C6, amended. When the parser returns a filter and the number is not written with a leading
  minus sign, the threshold is not negative.
\<close>

theorem parse_threshold_nonneg:
  assumes "parse_size_filter s = Inr (op, t)" and "\<not> negative_sign s"
  shows "0 \<le> t"
proof -
  define v where "v = number_text s"
  obtain op0 where so: "split_operator (upper (strip s)) = (op0, v)"
    by (cases "split_operator (upper (strip s))") (simp add: v_def number_text_def)
  have nv: "\<forall>r. dropWhile is_space v \<noteq> CHR ''-'' # r"
    using assms(2) by (auto simp: negative_sign_def v_def)
  show ?thesis
  proof (cases "unit_loop op0 v sorted_units")
    case (Some res)
    then have "res = Inr (op, t)" using assms(1) so by (simp add: parse_size_filter_def)
    then show ?thesis using Some nv sorted_units_nonneg unit_loop_nonneg by blast
  next
    case None
    show ?thesis
    proof (cases "py_int v")
      case (Some a)
      then have "t = a" using assms(1) so None by (simp add: parse_size_filter_def)
      then show ?thesis using py_int_nonneg [OF Some nv] by simp
    next
      case N: None
      then show ?thesis using assms(1) so None by (simp add: parse_size_filter_def)
    qed
  qed
qed

text \<open>The instance \<^verbatim>\<open><1.5kb\<close>.\<close>

theorem parse_threshold_nonneg_witness:
  "parse_size_filter ''<1.5kb'' = Inr (''<'', 1536) \<and> \<not> negative_sign ''<1.5kb'' \<and> (0::int) \<le> 1536"
proof -
  have a: "parse_size_filter ''<1.5kb'' = Inr (''<'', 1536)" by code_simp
  have b: "\<not> negative_sign ''<1.5kb''" by code_simp
  show ?thesis using a b parse_threshold_nonneg [OF a b] by simp
qed

text \<open>
  C6 as stated fails on a number with a minus sign: \<^verbatim>\<open>>-5\<close> and \<^verbatim>\<open>-1KB\<close> have negative
  thresholds.
\<close>

theorem parse_negative_threshold:
  "parse_size_filter ''>-5'' = Inr (''>'', - 5) \<and> parse_size_filter ''-1KB'' = Inr (''>'', - 1024)"
  by code_simp










text \<open>
  C5. \<^const>\<open>matches_size\<close> compares the size with the threshold by the filter's operator,
  it is false for every other operator, and a size of 1048577 matches the filter parsed from
  \<^verbatim>\<open>>1MB\<close> while 1048576 does not.
\<close>

theorem matches_size_operator:
  "matches_size n (op, t) =
     (op = ''>'' \<and> t < n \<or> op = ''>='' \<and> t \<le> n \<or> op = ''<'' \<and> n < t \<or> op = ''<='' \<and> n \<le> t)
   \<and> (op \<notin> set [''>'', ''>='', ''<'', ''<=''] \<longrightarrow> \<not> matches_size n (op, t))
   \<and> parse_size_filter ''>1MB'' = Inr (''>'', 1048576)
   \<and> matches_size 1048577 (''>'', 1048576) \<and> \<not> matches_size 1048576 (''>'', 1048576)"
proof -
  have "parse_size_filter ''>1MB'' = Inr (''>'', 1048576)" by code_simp
  then show ?thesis by (auto simp: matches_size_def)
qed

text \<open>The operator \<^verbatim>\<open>==\<close> matches nothing.\<close>

theorem matches_size_operator_witness:
  "''=='' \<notin> set [''>'', ''>='', ''<'', ''<=''] \<and> \<not> matches_size 5 (''=='', 3)"
  using matches_size_operator [of 5 "''==''" 3] by simp


section \<open>The file system, \<^verbatim>\<open>sync\<close>, \<^verbatim>\<open>remove\<close> and \<^verbatim>\<open>list_directory\<close>: proofs\<close>

lemma below_iff: "below d p \<longleftrightarrow> (\<exists>r. r \<noteq> [] \<and> p = d @ r)"
proof
  assume "below d p"
  then have "p = d @ drop (length d) p \<and> drop (length d) p \<noteq> []"
    unfolding below_def using append_take_drop_id [of "length d" p] by auto
  then show "\<exists>r. r \<noteq> [] \<and> p = d @ r" by blast
next
  assume "\<exists>r. r \<noteq> [] \<and> p = d @ r"
  then show "below d p" by (auto simp: below_def)
qed

lemma relative_to_append [simp]: "relative_to (d @ r) d = r"
  by (simp add: relative_to_def)

lemma parent_append [simp]: "r \<noteq> [] \<Longrightarrow> parent (d @ r) = d @ parent r"
  by (simp add: parent_def butlast_append)

lemma lookup_Nil [simp]: "lookup fs [] = Some Dir"
  by (simp add: lookup_def)

lemma lookup_None_iff: "lookup fs p = None \<longleftrightarrow> p \<noteq> [] \<and> p \<notin> fst ` set fs"
  by (simp add: lookup_def map_of_eq_None_iff)

lemma lookup_append:
  "lookup (fs @ xs) q = (case lookup fs q of Some e \<Rightarrow> Some e | None \<Rightarrow> map_of xs q)"
  by (auto simp: lookup_def map_add_def split: option.splits)

lemma map_of_dirs: "map_of (map (\<lambda>q. (q, Dir)) ds) x = (if x \<in> set ds then Some Dir else None)"
  by (induction ds) auto

lemma extends_refl [simp]: "extends fs fs"
  unfolding extends_def by (rule exI [of _ "[]"]) simp

lemma extends_lookup:
  assumes "extends fs fs'"
  shows "lookup fs' x = (case lookup fs x of Some e \<Rightarrow> Some e | None \<Rightarrow> lookup fs' x)"
    and "lookup fs' x = None \<or> lookup fs' x = Some Dir \<or> lookup fs' x = lookup fs x"
proof -
  from assms obtain ds where ds: "fs' = fs @ map (\<lambda>q. (q, Dir)) ds" by (auto simp: extends_def)
  show "lookup fs' x = (case lookup fs x of Some e \<Rightarrow> Some e | None \<Rightarrow> lookup fs' x)"
    by (simp add: ds lookup_append split: option.splits)
  show "lookup fs' x = None \<or> lookup fs' x = Some Dir \<or> lookup fs' x = lookup fs x"
    by (simp add: ds lookup_append map_of_dirs split: option.splits)
qed

lemma extends_Some: "extends fs fs' \<Longrightarrow> lookup fs x = Some e \<Longrightarrow> lookup fs' x = Some e"
  using extends_lookup(1) [of fs fs' x] by simp

lemma extends_File:
  "extends fs fs' \<Longrightarrow> lookup fs' x = Some (File c) \<longleftrightarrow> lookup fs x = Some (File c)"
  using extends_lookup [of fs fs' x] by (cases "lookup fs x") auto

lemma extends_is_file: "extends fs fs' \<Longrightarrow> is_file fs' x = is_file fs x"
  using extends_lookup [of fs fs' x]
  by (cases "lookup fs x") (auto simp: is_file_def split: option.splits entry.splits)

lemma extends_is_dir: "extends fs fs' \<Longrightarrow> is_dir fs x \<Longrightarrow> is_dir fs' x"
  by (simp add: is_dir_def extends_Some)

lemma extends_exists: "extends fs fs' \<Longrightarrow> path_exists fs x \<Longrightarrow> path_exists fs' x"
  by (auto simp: path_exists_def dest: extends_Some)

lemma extends_trans:
  assumes "extends fs fs'" "extends fs' fs''"
  shows "extends fs fs''"
proof -
  from assms(1) obtain ds where ds: "fs' = fs @ map (\<lambda>q. (q, Dir)) ds" "\<forall>q \<in> set ds. lookup fs q = None"
    by (auto simp: extends_def)
  from assms(2) obtain es where es: "fs'' = fs' @ map (\<lambda>q. (q, Dir)) es" "\<forall>q \<in> set es. lookup fs' q = None"
    by (auto simp: extends_def)
  have "\<forall>q \<in> set es. lookup fs q = None"
  proof
    fix q assume "q \<in> set es"
    then have "lookup fs' q = None" using es(2) by simp
    then show "lookup fs q = None" using extends_Some [OF assms(1)] by (cases "lookup fs q") auto
  qed
  then have "fs'' = fs @ map (\<lambda>q. (q, Dir)) (ds @ es) \<and> (\<forall>q \<in> set (ds @ es). lookup fs q = None)"
    using ds es by auto
  then show ?thesis unfolding extends_def by blast
qed

lemma extends_snoc:
  "lookup fs p = None \<Longrightarrow> extends fs (fs @ [(p, Dir)])"
  unfolding extends_def by (rule exI [of _ "[p]"]) simp

lemma extends_files:
  assumes "extends fs fs'"
  shows "filter (is_file fs') (rglob_all fs' d) = filter (is_file fs) (rglob_all fs d)"
proof -
  from assms obtain ds where ds: "fs' = fs @ map (\<lambda>q. (q, Dir)) ds" "\<forall>q \<in> set ds. lookup fs q = None"
    by (auto simp: extends_def)
  have "\<forall>q \<in> set ds. \<not> is_file fs q" using ds(2) by (simp add: is_file_def)
  then have n: "filter (is_file fs) (filter (below d) ds) = []" by (auto simp: filter_empty_conv)
  have f: "is_file fs' = is_file fs" using extends_is_file [OF assms] by auto
  have "rglob_all fs' d = rglob_all fs d @ filter (below d) ds"
    by (simp add: rglob_all_def ds(1) comp_def)
  then show ?thesis using n by (simp add: f)
qed

lemma wf_parent: "wf_fs fs \<Longrightarrow> path_exists fs p \<Longrightarrow> is_dir fs (parent p)"
  by (cases "p = []")
     (auto simp: wf_fs_def path_exists_def lookup_None_iff parent_def is_dir_def)

lemma wf_ancestor:
  "wf_fs fs \<Longrightarrow> path_exists fs (p @ t) \<Longrightarrow> t \<noteq> [] \<Longrightarrow> is_dir fs p"
proof (induction t rule: rev_induct)
  case Nil
  then show ?case by simp
next
  case (snoc a t)
  have "is_dir fs (parent (p @ t @ [a]))" using snoc.prems(1,2) by (rule wf_parent)
  then have d: "is_dir fs (p @ t)" by (simp add: parent_def butlast_append)
  show ?case
  proof (cases "t = []")
    case True
    then show ?thesis using d by simp
  next
    case False
    have "path_exists fs (p @ t)" using d by (simp add: is_dir_def path_exists_def)
    then show ?thesis using snoc False by simp
  qed
qed

lemma wf_snoc:
  assumes "wf_fs fs" "lookup fs p = None" "is_dir fs (parent p)"
  shows "wf_fs (fs @ [(p, Dir)])"
proof -
  have e: "extends fs (fs @ [(p, Dir)])" using assms(2) by (rule extends_snoc)
  have pn: "p \<noteq> [] \<and> p \<notin> fst ` set fs" using assms(2) by (simp add: lookup_None_iff)
  have "distinct (map fst (fs @ [(p, Dir)]))" using assms(1) pn by (simp add: wf_fs_def)
  moreover have "\<forall>q \<in> set (map fst (fs @ [(p, Dir)])). q \<noteq> [] \<and> is_dir (fs @ [(p, Dir)]) (parent q)"
    using assms(1,3) pn extends_is_dir [OF e] by (auto simp: wf_fs_def)
  ultimately show ?thesis unfolding wf_fs_def by blast
qed

lemma mkdir_parents_Nil [simp]: "mkdir_parents fs [] = Inr fs"
  by (simp add: mkdir_parents.simps)

lemma mkdir_parents_Inr:
  "mkdir_parents fs p = Inr fs' \<Longrightarrow>
     extends fs fs'
     \<and> (\<forall>x. lookup fs' x \<noteq> lookup fs x \<longrightarrow> (\<exists>r. p = x @ r))
     \<and> (wf_fs fs \<longrightarrow> wf_fs fs' \<and> is_dir fs' p)"
proof (induction fs p arbitrary: fs' rule: mkdir_parents.induct)
  case (1 fs p)
  show ?case
  proof (cases "p = []")
    case True
    then show ?thesis using "1.prems" by (simp add: mkdir_parents.simps [of fs p] is_dir_def)
  next
    case pne: False
    note s = mkdir_parents.simps [of fs p]
    show ?thesis
    proof (cases "lookup fs p")
      case (Some e)
      then show ?thesis using "1.prems" pne by (cases e) (simp_all add: s is_dir_def)
    next
      case None
      show ?thesis
      proof (cases "lookup fs (parent p)")
        case (Some e)
        then have e: "e = Dir" and fs': "fs' = fs @ [(p, Dir)]"
          using "1.prems" pne None by (cases e; simp add: s)+
        have ex: "extends fs fs'" unfolding fs' using None by (rule extends_snoc)
        have "\<forall>x. lookup fs' x \<noteq> lookup fs x \<longrightarrow> (\<exists>r. p = x @ r)"
          by (auto simp: fs' lookup_append split: option.splits if_splits)
        moreover have "wf_fs fs \<longrightarrow> wf_fs fs' \<and> is_dir fs' p"
          using wf_snoc [of fs p] None Some e
          by (auto simp: fs' is_dir_def lookup_append)
        ultimately show ?thesis using ex by simp
      next
        case N2: None
        from "1.prems" pne None N2 obtain fs1 where
          m: "mkdir_parents fs (parent p) = Inr fs1" and fs': "fs' = fs1 @ [(p, Dir)]"
          by (auto simp: s split: sum.splits)
        note ih = "1.IH" [OF pne None N2 m]
        have l1: "lookup fs1 p = None"
        proof (rule ccontr)
          assume "lookup fs1 p \<noteq> None"
          then have "lookup fs1 p \<noteq> lookup fs p" using None by simp
          then obtain r where "parent p = p @ r" using ih by blast
          then have "length (parent p) = length (p @ r)" by simp
          then have a: "length p - 1 = length p + length r" by (simp add: parent_def)
          have b: "length p \<noteq> 0" using pne by simp
          show False using a b by arith
        qed
        have e1: "extends fs1 fs'" unfolding fs' using l1 by (rule extends_snoc)
        have ex: "extends fs fs'" using ih e1 extends_trans by blast
        have "\<exists>r. p = x @ r" if "lookup fs' x \<noteq> lookup fs x" for x
        proof (cases "lookup fs1 x = lookup fs x")
          case True
          then have "x = p" using that by (auto simp: fs' lookup_append split: option.splits if_splits)
          then show ?thesis by simp
        next
          case False
          then obtain r where "parent p = x @ r" using ih by blast
          then have "butlast p @ [last p] = (x @ r) @ [last p]" by (simp add: parent_def)
          then have "p = x @ (r @ [last p])" using pne by simp
          then show ?thesis by blast
        qed
        moreover have "wf_fs fs' \<and> is_dir fs' p" if "wf_fs fs"
        proof -
          have w1: "wf_fs fs1" "is_dir fs1 (parent p)" using ih that by auto
          then have "wf_fs fs'" unfolding fs' using l1 wf_snoc by blast
          moreover have "is_dir fs' p" using l1 by (simp add: fs' is_dir_def lookup_append)
          ultimately show ?thesis by simp
        qed
        ultimately show ?thesis using ex by blast
      qed
    qed
  qed
qed

lemma mkdir_parents_Inl:
  "mkdir_parents fs p = Inl e \<Longrightarrow> e = FileExistsError \<or> e = NotADirectoryError"
proof (induction fs p rule: mkdir_parents.induct)
  case (1 fs p)
  then show ?case
    by (cases "p = []")
       (auto simp: mkdir_parents.simps [of fs p] split: option.splits entry.splits sum.splits)
qed


lemma copy_loop_Cons_cases:
  assumes "copy_loop src dst dry (g # rest) r fs = (res, fs')"
  obtains
    (not_file) "\<not> is_file fs g" "copy_loop src dst dry rest r fs = (res, fs')"
  | (mkdir_failed) e where "is_file fs g"
      "mkdir_parents fs (parent (dst @ relative_to g src)) = Inl e" "res = Inl e" "fs' = fs"
  | (skip) fs1 where "is_file fs g"
      "mkdir_parents fs (parent (dst @ relative_to g src)) = Inr fs1"
      "path_exists fs1 (dst @ relative_to g src)"
      "copy_loop src dst dry rest (r\<lparr>skipped := skipped r + 1\<rparr>) fs1 = (res, fs')"
  | (copy_failed) fs1 where "is_file fs g"
      "mkdir_parents fs (parent (dst @ relative_to g src)) = Inr fs1"
      "\<not> path_exists fs1 (dst @ relative_to g src)" "\<not> dry" "res = Inl NameError" "fs' = fs1"
  | (count) fs1 where "is_file fs g"
      "mkdir_parents fs (parent (dst @ relative_to g src)) = Inr fs1"
      "\<not> path_exists fs1 (dst @ relative_to g src)" "dry"
      "copy_loop src dst dry rest (r\<lparr>copied := copied r + 1\<rparr>) fs1 = (res, fs')"
proof (cases "is_file fs g")
  case False
  then have "copy_loop src dst dry rest r fs = (res, fs')" using assms by simp
  with False show ?thesis by (rule not_file)
next
  case True
  show ?thesis
  proof (cases "mkdir_parents fs (parent (dst @ relative_to g src))")
    case (Inl e)
    then have "res = Inl e" "fs' = fs" using assms True by (simp_all add: Let_def)
    with True Inl show ?thesis by (rule mkdir_failed)
  next
    case (Inr fs1)
    show ?thesis
    proof (cases "path_exists fs1 (dst @ relative_to g src)")
      case ex: True
      then have "copy_loop src dst dry rest (r\<lparr>skipped := skipped r + 1\<rparr>) fs1 = (res, fs')"
        using assms True Inr by (simp add: Let_def)
      with True Inr ex show ?thesis by (rule skip)
    next
      case nex: False
      show ?thesis
      proof (cases dry)
        case dry: True
        then have "copy_loop src dst dry rest (r\<lparr>copied := copied r + 1\<rparr>) fs1 = (res, fs')"
          using assms True Inr nex by (simp add: Let_def)
        with True Inr nex dry show ?thesis by (rule count)
      next
        case False
        then have "res = Inl NameError" "fs' = fs1"
          using assms True Inr nex by (simp_all add: Let_def shutil_copy2_def)
        with True Inr nex False show ?thesis by (rule copy_failed)
      qed
    qed
  qed
qed

lemma copy_loop_extends:
  "copy_loop src dst dry files r fs = (res, fs') \<Longrightarrow> wf_fs fs \<Longrightarrow> extends fs fs' \<and> wf_fs fs'"
proof (induction files arbitrary: r fs)
  case Nil
  then show ?case by simp
next
  case (Cons g rest)
  from Cons.prems(1) show ?case
  proof (cases rule: copy_loop_Cons_cases)
    case not_file
    then show ?thesis using Cons by blast
  next
    case (mkdir_failed e)
    then show ?thesis using Cons.prems by simp
  next
    case (skip fs1)
    from mkdir_parents_Inr [OF skip(2)] Cons.prems(2) have "extends fs fs1" "wf_fs fs1" by auto
    then show ?thesis using Cons.IH [OF skip(4)] extends_trans by blast
  next
    case (copy_failed fs1)
    from mkdir_parents_Inr [OF copy_failed(2)] Cons.prems(2) show ?thesis
      using copy_failed(6) by auto
  next
    case (count fs1)
    from mkdir_parents_Inr [OF count(2)] Cons.prems(2) have "extends fs fs1" "wf_fs fs1" by auto
    then show ?thesis using Cons.IH [OF count(5)] extends_trans by blast
  qed
qed

lemma copy_loop_errors:
  "copy_loop src dst dry files r fs = (Inl e, fs') \<Longrightarrow>
     e = NameError \<and> \<not> dry \<or> e = FileExistsError \<or> e = NotADirectoryError"
proof (induction files arbitrary: r fs)
  case Nil
  then show ?case by simp
next
  case (Cons g rest)
  from Cons.prems(1) show ?case
  proof (cases rule: copy_loop_Cons_cases)
    case (mkdir_failed e')
    then show ?thesis using mkdir_parents_Inl by blast
  qed (use Cons.IH in auto)
qed

lemma mkdir_no_clobber:
  assumes "wf_fs fs" "is_file fs (src @ rel)" "path_exists fs (src @ rel')" "rel' \<noteq> []"
    and "mkdir_parents fs (parent (dst @ rel')) = Inr fs'"
  shows "lookup fs' (dst @ rel) = lookup fs (dst @ rel)"
proof (rule ccontr)
  assume "lookup fs' (dst @ rel) \<noteq> lookup fs (dst @ rel)"
  then obtain t where "parent (dst @ rel') = (dst @ rel) @ t"
    using mkdir_parents_Inr [OF assms(5)] by blast
  then have "butlast rel' = rel @ t" using assms(4) by (simp add: parent_def butlast_append)
  then have "butlast rel' @ [last rel'] = rel @ (t @ [last rel'])" by simp
  then have "rel' = rel @ (t @ [last rel'])" using assms(4) by simp
  then have "path_exists fs ((src @ rel) @ (t @ [last rel']))" using assms(3) by simp
  then have "is_dir fs (src @ rel)" using assms(1) wf_ancestor by blast
  then show False using assms(2) by (simp add: is_dir_def is_file_def)
qed

lemma is_file_exists: "is_file fs p \<Longrightarrow> path_exists fs p"
  by (auto simp: is_file_def path_exists_def split: option.splits)

lemma copy_loop_counterpart:
  assumes "copy_loop src dst dry files r fs = (res, fs')"
    and "wf_fs fs" and "\<forall>g \<in> set files. below src g" and "is_file fs (src @ rel)"
  shows "lookup fs' (dst @ rel) = lookup fs (dst @ rel)"
  using assms
proof (induction files arbitrary: r fs)
  case Nil
  then show ?case by simp
next
  case (Cons g rest)
  from Cons.prems(3) obtain rel' where g: "g = src @ rel'" "rel' \<noteq> []"
    by (auto simp: below_iff)
  have rest: "\<forall>g \<in> set rest. below src g" using Cons.prems(3) by simp
  have step: "lookup fs1 (dst @ rel) = lookup fs (dst @ rel) \<and> wf_fs fs1 \<and> is_file fs1 (src @ rel)"
    if "is_file fs g" "mkdir_parents fs (parent (dst @ relative_to g src)) = Inr fs1" for fs1
  proof -
    have "path_exists fs (src @ rel')" using that(1) g by (simp add: is_file_exists)
    moreover have m: "mkdir_parents fs (parent (dst @ rel')) = Inr fs1" using that(2) g by simp
    ultimately have "lookup fs1 (dst @ rel) = lookup fs (dst @ rel)"
      using mkdir_no_clobber Cons.prems(2,4) g(2) by blast
    moreover have "wf_fs fs1" "extends fs fs1"
      using mkdir_parents_Inr [OF m] Cons.prems(2) by auto
    ultimately show ?thesis using Cons.prems(4) extends_is_file by blast
  qed
  from Cons.prems(1) show ?case
  proof (cases rule: copy_loop_Cons_cases)
    case not_file
    then show ?thesis using Cons.IH Cons.prems(2,4) rest by blast
  next
    case (mkdir_failed e)
    then show ?thesis by simp
  next
    case (skip fs1)
    then show ?thesis using step [OF skip(1,2)] Cons.IH [OF skip(4)] rest by simp
  next
    case (copy_failed fs1)
    then show ?thesis using step [OF copy_failed(1,2)] by simp
  next
    case (count fs1)
    then show ?thesis using step [OF count(1,2)] Cons.IH [OF count(5)] rest by simp
  qed
qed

lemma extends_is_file_eq: "extends fs fs' \<Longrightarrow> is_file fs' = is_file fs"
  using extends_is_file by auto

lemma extends_files_where:
  assumes "extends fs fs'"
  shows "filter (\<lambda>f. is_file fs' f \<and> Q f) (rglob_all fs' d)
           = filter (\<lambda>f. is_file fs f \<and> Q f) (rglob_all fs d)"
proof -
  have "filter (\<lambda>f. is_file fs' f \<and> Q f) (rglob_all fs' d)
          = filter Q (filter (is_file fs') (rglob_all fs' d))"
    by (simp add: conj_commute)
  also have "\<dots> = filter Q (filter (is_file fs) (rglob_all fs d))"
    by (simp only: extends_files [OF assms])
  also have "\<dots> = filter (\<lambda>f. is_file fs f \<and> Q f) (rglob_all fs d)"
    by (simp add: conj_commute)
  finally show ?thesis .
qed

lemma copy_loop_returns:
  assumes "copy_loop src dst False files r fs = (Inr r', fs')" and "wf_fs fs"
  shows "copied r' = copied r \<and> deleted r' = deleted r
         \<and> skipped r' = skipped r + length (filter (is_file fs) files)
         \<and> (\<forall>g \<in> set files. is_file fs g \<longrightarrow> path_exists fs' (dst @ relative_to g src))"
  using assms
proof (induction files arbitrary: r fs)
  case Nil
  then show ?case by simp
next
  case (Cons g rest)
  from Cons.prems(1) show ?case
  proof (cases rule: copy_loop_Cons_cases)
    case not_file
    then show ?thesis using Cons.IH [OF not_file(2) Cons.prems(2)] by simp
  next
    case (skip fs1)
    from mkdir_parents_Inr [OF skip(2)] Cons.prems(2) have e: "extends fs fs1" and w: "wf_fs fs1"
      by auto
    note ih = Cons.IH [OF skip(4) w]
    have "extends fs1 fs'" using copy_loop_extends [OF skip(4) w] by simp
    then have "path_exists fs' (dst @ relative_to g src)" using skip(3) extends_exists by blast
    then show ?thesis using ih skip(1) by (simp add: extends_is_file_eq [OF e])
  qed simp_all
qed


lemma copy_loop_dry_count:
  assumes "copy_loop src dst True files r fs = (Inr r', fs')"
    and "wf_fs fs" and "\<forall>g \<in> set files. below src g"
  shows "copied r' = copied r
           + length (filter (\<lambda>g. is_file fs g \<and> \<not> path_exists fs' (dst @ relative_to g src)) files)
         \<and> deleted r' = deleted r"
  using assms
proof (induction files arbitrary: r fs)
  case Nil
  then show ?case by simp
next
  case (Cons g rest)
  have rest: "\<forall>g \<in> set rest. below src g" using Cons.prems(3) by simp
  from Cons.prems(1) show ?case
  proof (cases rule: copy_loop_Cons_cases)
    case not_file
    then show ?thesis using Cons.IH [OF not_file(2) Cons.prems(2) rest] by simp
  next
    case (skip fs1)
    from mkdir_parents_Inr [OF skip(2)] Cons.prems(2) have e: "extends fs fs1" and w: "wf_fs fs1"
      by auto
    note ih = Cons.IH [OF skip(4) w rest]
    have "extends fs1 fs'" using copy_loop_extends [OF skip(4) w] by simp
    then have "path_exists fs' (dst @ relative_to g src)" using skip(3) extends_exists by blast
    then show ?thesis using ih skip(1) by (simp add: extends_is_file_eq [OF e])
  next
    case (count fs1)
    from mkdir_parents_Inr [OF count(2)] Cons.prems(2) have e: "extends fs fs1" and w: "wf_fs fs1"
      by auto
    note ih = Cons.IH [OF count(5) w rest]
    from Cons.prems(3) obtain rel where g: "g = src @ rel" by (auto simp: below_iff)
    have "is_file fs1 (src @ rel)" using count(1) g extends_is_file [OF e] by simp
    from copy_loop_counterpart [OF count(5) w rest this]
    have "\<not> path_exists fs' (dst @ relative_to g src)"
      using count(3) g by (simp add: path_exists_def)
    then show ?thesis using ih count(1) by (simp add: extends_is_file_eq [OF e])
  qed simp_all
qed

lemma delete_loop_dry:
  "delete_loop src dst True gs r fs
     = (r\<lparr>deleted := deleted r
            + length (filter (\<lambda>g. is_file fs g \<and> \<not> path_exists fs (src @ relative_to g dst)) gs)\<rparr>, fs)"
  by (induction gs arbitrary: r) (simp_all add: Let_def)

lemma delete_loop_copied:
  "delete_loop src dst dry gs r fs = (r', fs') \<Longrightarrow> copied r' = copied r \<and> skipped r' = skipped r"
proof (induction gs arbitrary: r fs)
  case Nil
  then show ?case by simp
next
  case (Cons g gs)
  then show ?case by (auto simp: Let_def split: if_splits)
qed

lemma copy_loop_copied:
  "copy_loop src dst False files r fs = (Inr r', fs') \<Longrightarrow> copied r' = copied r"
proof (induction files arbitrary: r fs)
  case Nil
  then show ?case by simp
next
  case (Cons g rest)
  from Cons.prems show ?case
  proof (cases rule: copy_loop_Cons_cases)
    case not_file
    then show ?thesis using Cons.IH by blast
  next
    case (skip fs1)
    then show ?thesis using Cons.IH [OF skip(4)] by simp
  qed simp_all
qed

lemma sync_copied_zero:
  assumes "fst (sync fs src dst delete False) = Inr r"
  shows "copied r = 0"
proof (cases "\<not> path_exists fs src \<or> \<not> is_dir fs src")
  case True
  then show ?thesis using assms by (auto simp: sync_def)
next
  case False
  show ?thesis
  proof (cases "mkdir_parents fs dst")
    case (Inl e)
    then show ?thesis using assms False by (simp add: sync_def)
  next
    case (Inr fs1)
    obtain res2 fs2 where c: "copy_loop src dst False (rglob_all fs1 src)
        \<lparr>copied = 0, skipped = 0, deleted = 0\<rparr> fs1 = (res2, fs2)"
      by (cases "copy_loop src dst False (rglob_all fs1 src) \<lparr>copied = 0, skipped = 0, deleted = 0\<rparr> fs1")
    show ?thesis
    proof (cases res2)
      case (Inl e)
      then show ?thesis using assms False Inr c by (simp add: sync_def)
    next
      case r2: (Inr r2)
      have z: "copied r2 = 0" using copy_loop_copied c r2 by fastforce
      show ?thesis
      proof (cases delete)
        case False
        then show ?thesis using assms \<open>\<not> (\<not> path_exists fs src \<or> \<not> is_dir fs src)\<close> Inr c r2 z
          by (simp add: sync_def)
      next
        case True
        obtain r3 fs3 where d: "delete_loop src dst False (rglob_all fs2 dst) r2 fs2 = (r3, fs3)"
          by (cases "delete_loop src dst False (rglob_all fs2 dst) r2 fs2")
        then have "r = r3" using assms False Inr c r2 True by (simp add: sync_def)
        then show ?thesis using delete_loop_copied [OF d] z by simp
      qed
    qed
  qed
qed

lemma mkdir_parents_deeper:
  assumes "mkdir_parents fs dst = Inr fs1" "rel \<noteq> []"
  shows "lookup fs1 (dst @ rel) = lookup fs (dst @ rel)"
proof (rule ccontr)
  assume "lookup fs1 (dst @ rel) \<noteq> lookup fs (dst @ rel)"
  then obtain t where "dst = (dst @ rel) @ t" using mkdir_parents_Inr [OF assms(1)] by blast
  then have "length dst = length dst + length rel + length t" by (metis length_append)
  then show False using assms(2) by simp
qed

text \<open>
  C3, amended. When a regular file below the source has no counterpart below the
  destination, a run without dry run raises: \<^verbatim>\<open>NameError\<close> from the copy step, unless making
  a directory of the destination raises \<^verbatim>\<open>FileExistsError\<close> or \<^verbatim>\<open>NotADirectoryError\<close> before.
  No run without dry run returns a result with \<open>copied > 0\<close>.
\<close>

theorem sync_copy_raises:
  assumes "wf_fs fs" and "f \<in> set (rglob_all fs src)" and "is_file fs f"
    and "\<not> path_exists fs (dst @ relative_to f src)"
  shows "(fst (sync fs src dst delete False) = Inl NameError
          \<or> fst (sync fs src dst delete False) = Inl FileExistsError
          \<or> fst (sync fs src dst delete False) = Inl NotADirectoryError)
         \<and> (\<forall>fs2 src2 dst2 delete2 r.
               fst (sync fs2 src2 dst2 delete2 False) = Inr r \<longrightarrow> copied r = 0)"
proof -
  from assms(2) have bf: "below src f" and fin: "f \<in> fst ` set fs" by (auto simp: rglob_all_def)
  then obtain rel where rel: "rel \<noteq> []" "f = src @ rel" by (auto simp: below_iff)
  have "path_exists fs (src @ rel)" using assms(3) rel by (simp add: is_file_exists)
  then have sd: "is_dir fs src" using assms(1) rel(1) wf_ancestor by blast
  then have se: "path_exists fs src" by (simp add: is_dir_def path_exists_def)
  have nex: "lookup fs (dst @ rel) = None" using assms(4) rel by (simp add: path_exists_def)
  let ?z = "\<lparr>copied = 0, skipped = 0, deleted = 0\<rparr>"
  have A: "fst (sync fs src dst delete False) = Inl NameError
          \<or> fst (sync fs src dst delete False) = Inl FileExistsError
          \<or> fst (sync fs src dst delete False) = Inl NotADirectoryError"
  proof (cases "mkdir_parents fs dst")
    case (Inl e)
    then have "fst (sync fs src dst delete False) = Inl e" using sd se by (simp add: sync_def)
    then show ?thesis using mkdir_parents_Inl [OF Inl] by auto
  next
    case (Inr fs1)
    from mkdir_parents_Inr [OF Inr] assms(1) have e1: "extends fs fs1" and w1: "wf_fs fs1" by auto
    have f1: "is_file fs1 (src @ rel)" using assms(3) rel extends_is_file [OF e1] by simp
    have n1: "lookup fs1 (dst @ rel) = None" using mkdir_parents_deeper [OF Inr rel(1)] nex by simp
    have "f \<in> fst ` set fs1" using fin e1 by (auto simp: extends_def)
    then have m1: "f \<in> set (rglob_all fs1 src)" using bf by (simp add: rglob_all_def)
    have b1: "\<forall>g \<in> set (rglob_all fs1 src). below src g" by (simp add: rglob_all_def)
    obtain res2 fs2 where c: "copy_loop src dst False (rglob_all fs1 src) ?z fs1 = (res2, fs2)"
      by (cases "copy_loop src dst False (rglob_all fs1 src) ?z fs1")
    have n2: "lookup fs2 (dst @ rel) = None"
      using copy_loop_counterpart [OF c w1 b1 f1] n1 by simp
    show ?thesis
    proof (cases res2)
      case (Inl e)
      then have "fst (sync fs src dst delete False) = Inl e" using sd se Inr c by (simp add: sync_def)
      then show ?thesis using copy_loop_errors c Inl by fastforce
    next
      case r2: (Inr r2)
      have "path_exists fs2 (dst @ relative_to f src)"
        using copy_loop_returns c r2 w1 m1 f1 rel(2) by blast
      then show ?thesis using n2 rel by (simp add: path_exists_def)
    qed
  qed
  show ?thesis using A sync_copied_zero by blast
qed

text \<open>The instance \<^const>\<open>example_fs\<close>, where the copy step raises.\<close>

theorem sync_copy_raises_witness:
  "wf_fs example_fs \<and> [''s'', ''a'', ''b.txt''] \<in> set (rglob_all example_fs [''s''])
   \<and> is_file example_fs [''s'', ''a'', ''b.txt'']
   \<and> \<not> path_exists example_fs ([''d''] @ relative_to [''s'', ''a'', ''b.txt''] [''s''])
   \<and> fst (sync example_fs [''s''] [''d''] False False) = Inl NameError"
proof -
  have a: "wf_fs example_fs" by code_simp
  have b: "[''s'', ''a'', ''b.txt''] \<in> set (rglob_all example_fs [''s''])" by code_simp
  have c: "is_file example_fs [''s'', ''a'', ''b.txt'']" by code_simp
  have d: "\<not> path_exists example_fs ([''d''] @ relative_to [''s'', ''a'', ''b.txt''] [''s''])"
    by code_simp
  have e: "fst (sync example_fs [''s''] [''d''] False False) = Inl NameError" by code_simp
  show ?thesis using a b c d e sync_copy_raises [OF a b c d, of False] by blast
qed

text \<open>
  C3 as stated fails where a regular file is in the way of a directory of the destination:
  \<^verbatim>\<open>mkdir\<close> raises \<^verbatim>\<open>FileExistsError\<close> and the copy step is not reached.
\<close>

theorem sync_blocked_destination:
  "wf_fs blocked_fs \<and> [''s'', ''a'', ''b.txt''] \<in> set (rglob_all blocked_fs [''s''])
   \<and> is_file blocked_fs [''s'', ''a'', ''b.txt'']
   \<and> \<not> path_exists blocked_fs ([''d''] @ relative_to [''s'', ''a'', ''b.txt''] [''s''])
   \<and> sync blocked_fs [''s''] [''d''] False False = (Inl FileExistsError, blocked_fs)"
  by code_simp




text \<open>
  C2. A dry run leaves every regular file as it was: none is created, overwritten or
  removed. When the source is a directory and the run returns a result, its \<open>copied\<close>
  counter is the number of regular files below the source whose counterpart is, after the
  run, still absent below the destination, and with \<^verbatim>\<open>delete\<close> its \<open>deleted\<close> counter is the
  number of regular files that are, after the run, still present below the destination
  without a counterpart below the source.
\<close>

theorem sync_dry_run:
  assumes "wf_fs fs" and "sync fs src dst delete True = (res, fs')"
  shows "(\<forall>p c. lookup fs' p = Some (File c) \<longleftrightarrow> lookup fs p = Some (File c))
         \<and> (is_dir fs src \<longrightarrow> (\<forall>r. res = Inr r \<longrightarrow>
              copied r = length (filter (\<lambda>f. is_file fs' f
                                   \<and> \<not> path_exists fs' (dst @ relative_to f src)) (rglob_all fs' src))
              \<and> deleted r = (if delete
                   then length (filter (\<lambda>g. is_file fs' g
                                   \<and> \<not> path_exists fs' (src @ relative_to g dst)) (rglob_all fs' dst))
                   else 0)))"
proof (cases "is_dir fs src")
  case False
  then have "fs' = fs" using assms(2) by (auto simp: sync_def)
  then show ?thesis using False by simp
next
  case True
  then have se: "path_exists fs src" by (simp add: is_dir_def path_exists_def)
  let ?z = "\<lparr>copied = 0, skipped = 0, deleted = 0\<rparr>"
  show ?thesis
  proof (cases "mkdir_parents fs dst")
    case (Inl e)
    then have "fs' = fs \<and> res = Inl e" using assms(2) True se by (auto simp: sync_def)
    then show ?thesis by simp
  next
    case (Inr fs1)
    from mkdir_parents_Inr [OF Inr] assms(1) have e1: "extends fs fs1" and w1: "wf_fs fs1" by auto
    obtain res2 fs2 where c: "copy_loop src dst True (rglob_all fs1 src) ?z fs1 = (res2, fs2)"
      by (cases "copy_loop src dst True (rglob_all fs1 src) ?z fs1")
    from copy_loop_extends [OF c w1] have e2: "extends fs1 fs2" by simp
    have e: "extends fs fs2" using e1 e2 by (rule extends_trans)
    have b1: "\<forall>g \<in> set (rglob_all fs1 src). below src g" by (simp add: rglob_all_def)
    show ?thesis
    proof (cases res2)
      case (Inl e')
      then have "fs' = fs2 \<and> res = Inl e'" using assms(2) True se Inr c by (auto simp: sync_def)
      then show ?thesis using extends_File [OF e] by simp
    next
      case r2: (Inr r2)
      have c': "copy_loop src dst True (rglob_all fs1 src) ?z fs1 = (Inr r2, fs2)" using c r2 by simp
      from copy_loop_dry_count [OF c' w1 b1]
      have "copied r2 = length (filter (\<lambda>g. is_file fs1 g
                \<and> \<not> path_exists fs2 (dst @ relative_to g src)) (rglob_all fs1 src))"
        and d2: "deleted r2 = 0" by simp_all
      then have c2: "copied r2 = length (filter (\<lambda>g. is_file fs2 g
                \<and> \<not> path_exists fs2 (dst @ relative_to g src)) (rglob_all fs2 src))"
        by (simp only: extends_files_where [OF e2])
      show ?thesis
      proof (cases delete)
        case False
        then have "fs' = fs2 \<and> res = Inr r2" using assms(2) True se Inr c r2 by (auto simp: sync_def)
        then show ?thesis using extends_File [OF e] c2 d2 False by simp
      next
        case dl: True
        let ?n = "length (filter (\<lambda>g. is_file fs2 g
                     \<and> \<not> path_exists fs2 (src @ relative_to g dst)) (rglob_all fs2 dst))"
        have "fs' = fs2 \<and> res = Inr (r2\<lparr>deleted := deleted r2 + ?n\<rparr>)"
          using assms(2) True se Inr c r2 dl by (auto simp: sync_def delete_loop_dry)
        then show ?thesis using extends_File [OF e] c2 d2 dl by simp
      qed
    qed
  qed
qed

text \<open>
  The instance \<^const>\<open>example_fs\<close>: one file counted as copied and absent, one counted as
  deleted and present; the run makes the directory \<^verbatim>\<open>/d/a\<close>.
\<close>

theorem sync_dry_run_witness:
  "wf_fs example_fs
   \<and> sync example_fs [''s''] [''d''] True True
       = (Inr \<lparr>copied = 1, skipped = 1, deleted = 1\<rparr>, example_fs @ [([''d'', ''a''], Dir)])
   \<and> is_dir example_fs [''s'']
   \<and> (\<forall>p c. lookup (example_fs @ [([''d'', ''a''], Dir)]) p = Some (File c)
               \<longleftrightarrow> lookup example_fs p = Some (File c))
   \<and> \<not> path_exists (example_fs @ [([''d'', ''a''], Dir)]) [''d'', ''a'', ''b.txt'']
   \<and> is_file (example_fs @ [([''d'', ''a''], Dir)]) [''d'', ''z'']"
proof -
  have a: "wf_fs example_fs" by code_simp
  have b: "sync example_fs [''s''] [''d''] True True
       = (Inr \<lparr>copied = 1, skipped = 1, deleted = 1\<rparr>, example_fs @ [([''d'', ''a''], Dir)])"
    by code_simp
  have c: "is_dir example_fs [''s'']" by code_simp
  have d: "\<not> path_exists (example_fs @ [([''d'', ''a''], Dir)]) [''d'', ''a'', ''b.txt'']" by code_simp
  have e: "is_file (example_fs @ [([''d'', ''a''], Dir)]) [''d'', ''z'']" by code_simp
  show ?thesis using a b c d e sync_dry_run [OF a b] by blast
qed



lemma entry_info_name [simp]: "info_name (entry_info stat_text fs detailed x) = last x"
  by (simp add: entry_info_def Let_def split: option.splits prod.splits)

lemma iterdir_child: "x \<in> set (iterdir fs d) \<Longrightarrow> x = d @ [last x] \<and> x \<in> fst ` set fs"
proof -
  assume "x \<in> set (iterdir fs d)"
  then have x: "x \<noteq> []" "butlast x = d" "x \<in> fst ` set fs" by (auto simp: iterdir_def parent_def)
  have "butlast x @ [last x] = x" using x(1) by simp
  then show ?thesis using x by simp
qed

lemma iterdir_iff: "d @ [n] \<in> set (iterdir fs d) \<longleftrightarrow> d @ [n] \<in> fst ` set fs"
  by (auto simp: iterdir_def parent_def)

text \<open>
  C9. For a directory \<open>d\<close>, the names that \<^verbatim>\<open>list_directory\<close> returns are the names of the
  children of \<open>d\<close>, without those that start with a dot unless \<^verbatim>\<open>show_hidden\<close> is set; they
  are sorted by the key (is a file, name in lower case), so that no file comes before a
  directory, and within the directories and within the files the names in lower case
  ascend.
\<close>

theorem list_directory_sorted:
  assumes "is_dir fs d"
    and "names = map info_name (list_directory stat_text fs d show_hidden detailed)"
  shows "set names = {n. d @ [n] \<in> fst ` set fs \<and> (show_hidden \<or> \<not> startswith n ''.'')}
         \<and> sorted (map (\<lambda>n. (is_file fs (d @ [n]), lower n)) names)
         \<and> (\<forall>i j. i < j \<and> j < length names \<longrightarrow>
               (is_file fs (d @ [names ! i]) \<longrightarrow> is_file fs (d @ [names ! j]))
               \<and> (is_file fs (d @ [names ! i]) = is_file fs (d @ [names ! j])
                    \<longrightarrow> lower (names ! i) \<le> lower (names ! j)))"
proof -
  define shown where "shown = (\<lambda>x::path. \<not> (\<not> show_hidden \<and> startswith (last x) ''.''))"
  define xs where "xs = filter shown (sort_key (entry_key fs) (iterdir fs d))"
  have ex: "path_exists fs d" using assms(1) by (simp add: is_dir_def path_exists_def)
  have names: "names = map last xs"
    using assms ex by (simp add: list_directory_def xs_def shown_def comp_def)
  have ch: "\<forall>x \<in> set xs. x = d @ [last x] \<and> x \<in> fst ` set fs"
    using iterdir_child by (auto simp: xs_def)
  have key: "map (\<lambda>n. (is_file fs (d @ [n]), lower n)) names = map (entry_key fs) xs"
    unfolding names map_map
  proof (rule map_cong [OF refl])
    fix x assume "x \<in> set xs"
    then have "d @ [last x] = x" using ch by auto
    then show "((\<lambda>n. (is_file fs (d @ [n]), lower n)) \<circ> last) x = entry_key fs x"
      by (simp add: entry_key_def)
  qed
  have "sorted (map (entry_key fs) (sort_key (entry_key fs) (iterdir fs d)))"
    by (rule sorted_sort_key)
  then have srt: "sorted (map (entry_key fs) xs)" unfolding xs_def by (rule sorted_filter)
  have A: "set names = {n. d @ [n] \<in> fst ` set fs \<and> (show_hidden \<or> \<not> startswith n ''.'')}"
  proof (intro set_eqI iffI)
    fix n assume "n \<in> set names"
    then obtain x where x: "x \<in> set xs" "n = last x" by (auto simp: names)
    then have "d @ [n] = x" using ch by auto
    moreover have "shown x" using x(1) by (simp add: xs_def)
    ultimately show "n \<in> {n. d @ [n] \<in> fst ` set fs \<and> (show_hidden \<or> \<not> startswith n ''.'')}"
      using ch x by (auto simp: shown_def)
  next
    fix n assume "n \<in> {n. d @ [n] \<in> fst ` set fs \<and> (show_hidden \<or> \<not> startswith n ''.'')}"
    then have "d @ [n] \<in> set (iterdir fs d)" "shown (d @ [n])"
      by (auto simp: iterdir_iff shown_def)
    then have "d @ [n] \<in> set xs" by (simp add: xs_def)
    then have "last (d @ [n]) \<in> last ` set xs" by (rule imageI)
    then show "n \<in> set names" by (simp add: names)
  qed
  have B: "sorted (map (\<lambda>n. (is_file fs (d @ [n]), lower n)) names)" using key srt by simp
  have C: "(is_file fs (d @ [names ! i]) \<longrightarrow> is_file fs (d @ [names ! j]))
           \<and> (is_file fs (d @ [names ! i]) = is_file fs (d @ [names ! j])
                \<longrightarrow> lower (names ! i) \<le> lower (names ! j))"
    if "i < j \<and> j < length names" for i j
  proof -
    let ?k = "\<lambda>n. (is_file fs (d @ [n]), lower n)"
    have "map ?k names ! i \<le> map ?k names ! j"
      using B that by (intro sorted_nth_mono) simp_all
    then have "?k (names ! i) \<le> ?k (names ! j)" using that by simp
    then show ?thesis by (auto simp: less_eq_prod_def)
  qed
  show ?thesis using A B C by blast
qed

text \<open>The instance \<^const>\<open>listing_fs\<close>, with and without the hidden entries.\<close>

theorem list_directory_sorted_witness:
  "is_dir listing_fs [''s'']
   \<and> [''.git'', ''a'', ''B'', ''.h'', ''c'', ''Zed'']
       = map info_name (list_directory (\<lambda>_. None) listing_fs [''s''] True False)
   \<and> [''a'', ''B'', ''c'', ''Zed'']
       = map info_name (list_directory (\<lambda>_. None) listing_fs [''s''] False True)
   \<and> set [''a'', ''B'', ''c'', ''Zed'']
       = {n. [''s''] @ [n] \<in> fst ` set listing_fs \<and> (False \<or> \<not> startswith n ''.'')}
   \<and> sorted (map (\<lambda>n. (is_file listing_fs ([''s''] @ [n]), lower n))
               [''.git'', ''a'', ''B'', ''.h'', ''c'', ''Zed''])"
proof -
  have a: "is_dir listing_fs [''s'']" by code_simp
  have b: "[''.git'', ''a'', ''B'', ''.h'', ''c'', ''Zed'']
       = map info_name (list_directory (\<lambda>_. None) listing_fs [''s''] True False)" by code_simp
  have c: "[''a'', ''B'', ''c'', ''Zed'']
       = map info_name (list_directory (\<lambda>_. None) listing_fs [''s''] False True)" by code_simp
  show ?thesis
    using a b c list_directory_sorted [OF a b] list_directory_sorted [OF a c] by blast
qed


section \<open>\<^verbatim>\<open>search_text\<close>: proofs\<close>







end
